theory Spec2Isabelle
  imports Complex_Main "HOL-Library.Multiset" "HOL-Library.AList"
begin

section \<open>Campus route finding: the model of \<open>services/pathfinding.js\<close>\<close>

text \<open>
  JavaScript numbers are modelled as follows: identifiers (\<open>node_id\<close>, \<open>edge_id\<close>) and
  \<open>floor_level\<close> are \<open>int\<close> (the columns are INTEGER); distances, compass angles and
  priorities are \<open>real\<close>, that is, arithmetic is exact and there is no NaN and no
  rounding of sums.  A JavaScript \<open>Map\<close> is an association list in insertion order,
  read with \<open>map_of\<close> and written with \<open>AList.update\<close>; the per-query maps of the
  search, which are never enumerated, are partial functions.
\<close>

subsection \<open>MinHeap\<close>

record 'a heap_entry =
  priority :: real
  val :: 'a

type_synonym 'a heap = "'a heap_entry list"

text \<open>The destructuring swap \<open>[h[i], h[j]] = [h[j], h[i]]\<close>.\<close>

definition swap :: "'a list \<Rightarrow> nat \<Rightarrow> nat \<Rightarrow> 'a list" where
  "swap h i j = h[i := h ! j, j := h ! i]"

text \<open>
  \<open>bubbleUp\<close> is called by \<open>push\<close> only, with the index of the last cell; the parent
  index is smaller, so every cell it reads exists.
\<close>

function bubbleUp :: "'a heap \<Rightarrow> nat \<Rightarrow> 'a heap" where
  "bubbleUp h index =
     (if index > 0 then
        (let parentIndex = (index - 1) div 2 in
         if priority (h ! parentIndex) \<le> priority (h ! index) then h
         else bubbleUp (swap h parentIndex index) parentIndex)
      else h)"
  by pat_completeness auto
termination
  by (relation "measure (\<lambda>(h, index). index)") auto

declare bubbleUp.simps [simp del]

text \<open>The three statements of \<open>bubbleDown\<close> that choose \<open>smallest\<close>.\<close>

definition smallestOf :: "'a heap \<Rightarrow> nat \<Rightarrow> nat" where
  "smallestOf h index =
     (let leftChild = 2 * index + 1;
          rightChild = 2 * index + 2;
          smallest = index;
          smallest = (if leftChild < length h \<and>
                         priority (h ! leftChild) < priority (h ! smallest)
                      then leftChild else smallest);
          smallest = (if rightChild < length h \<and>
                         priority (h ! rightChild) < priority (h ! smallest)
                      then rightChild else smallest)
      in smallest)"

lemma smallestOf_cases:
  "smallestOf h i = i \<or> smallestOf h i = 2 * i + 1 \<and> 2 * i + 1 < length h
     \<or> smallestOf h i = 2 * i + 2 \<and> 2 * i + 2 < length h"
  by (auto simp: smallestOf_def Let_def)

function bubbleDown :: "'a heap \<Rightarrow> nat \<Rightarrow> 'a heap" where
  "bubbleDown h index =
     (let smallest = smallestOf h index in
      if smallest = index then h
      else bubbleDown (swap h smallest index) smallest)"
  by pat_completeness auto
termination
proof (relation "measure (\<lambda>(h, index). length h - index)")
  show "wf (measure (\<lambda>(h :: 'a heap, index). length h - index))" by simp
next
  fix h :: "'a heap" and index x
  assume "x = smallestOf h index" "x \<noteq> index"
  then show "((swap h x index, x), (h, index)) \<in> measure (\<lambda>(h, index). length h - index)"
    using smallestOf_cases [of h index] by (auto simp: swap_def)
qed

declare bubbleDown.simps [simp del]

definition push :: "real \<Rightarrow> 'a \<Rightarrow> 'a heap \<Rightarrow> 'a heap" where
  "push p v h =
     (let h' = h @ [\<lparr>priority = p, val = v\<rparr>] in bubbleUp h' (length h' - 1))"

text \<open>\<open>pop\<close> returns the popped entry (\<open>None\<close> for JavaScript's \<open>null\<close>) and the new heap.\<close>

definition pop :: "'a heap \<Rightarrow> 'a heap_entry option \<times> 'a heap" where
  "pop h =
     (if length h = 0 then (None, h)
      else if length h = 1 then (Some (last h), butlast h)
      else (let min = h ! 0;
                l = last h;
                h' = (butlast h)[0 := l]
            in (Some min, bubbleDown h' 0)))"

definition isEmpty :: "'a heap \<Rightarrow> bool" where
  "isEmpty h = (length h = 0)"

subsection \<open>The data layer\<close>

text \<open>
  The rows of the tables \<open>nodes\<close> and \<open>edges\<close> as the Sequelize models declare them
  (the columns the route finder reads).  A nullable column is an \<open>option\<close>.
\<close>

record node =
  node_id :: int
  node_code :: string
  name :: string
  building :: string
  floor_level :: int
  type_of_node :: string
  image360 :: "string option"
  map_x :: "real option"
  map_y :: "real option"

record edge =
  edge_id :: int
  from_node_id :: int
  to_node_id :: int
  distance :: real
  compass_angle :: real
  is_staircase :: bool
  is_active :: bool

record database =
  db_nodes :: "node list"
  db_edges :: "edge list"

text \<open>\<open>Nodes.findAll()\<close>, \<open>Edges.findAll({where: {is_active: true}})\<close> and
  \<open>Nodes.findOne({where: {node_code: code}})\<close>.\<close>

definition findAllNodes :: "database \<Rightarrow> node list" where
  "findAllNodes db = db_nodes db"

definition findActiveEdges :: "database \<Rightarrow> edge list" where
  "findActiveEdges db = filter is_active (db_edges db)"

definition findOne :: "database \<Rightarrow> string \<Rightarrow> node option" where
  "findOne db code = find (\<lambda>n. node_code n = code) (db_nodes db)"

subsection \<open>PathFinder: the cached snapshot\<close>

text \<open>An adjacency option, the object pushed onto a node's neighbour array.\<close>

record adj =
  to :: int
  adj_distance :: real
  adj_compass_angle :: real
  adj_is_staircase :: bool
  adj_edge_id :: int

type_synonym graph = "(int \<times> adj list) list"

record PathFinder =
  nodesCache :: "(int \<times> node) list"
  graph :: graph
  initialized :: bool

definition newPathFinder :: PathFinder where
  "newPathFinder = \<lparr>nodesCache = [], graph = [], initialized = False\<rparr>"

definition reset :: "PathFinder \<Rightarrow> PathFinder" where
  "reset pf = pf\<lparr>initialized := False, nodesCache := [], graph := []\<rparr>"

text \<open>JavaScript's \<open>%\<close> on numbers: the remainder has the sign of the dividend.\<close>

definition js_rem :: "real \<Rightarrow> real \<Rightarrow> real" where
  "js_rem x y =
     (if 0 \<le> x then x - \<bar>y\<bar> * of_int \<lfloor>x / \<bar>y\<bar>\<rfloor>
      else - ((- x) - \<bar>y\<bar> * of_int \<lfloor>(- x) / \<bar>y\<bar>\<rfloor>))"

text \<open>\<open>this.graph.get(k).push(opt)\<close>, guarded by \<open>this.graph.has(k)\<close>.\<close>

definition pushOption :: "int \<Rightarrow> adj \<Rightarrow> graph \<Rightarrow> graph" where
  "pushOption k opt g =
     (case map_of g k of
        None \<Rightarrow> g
      | Some opts \<Rightarrow> AList.update k (opts @ [opt]) g)"

definition addEdge :: "edge \<Rightarrow> graph \<Rightarrow> graph" where
  "addEdge e g =
     (let fromId = from_node_id e;
          toId = to_node_id e;
          g1 = pushOption fromId
                 \<lparr>to = toId, adj_distance = distance e,
                  adj_compass_angle = compass_angle e,
                  adj_is_staircase = is_staircase e, adj_edge_id = edge_id e\<rparr> g;
          reverseAngle = js_rem (compass_angle e + 180) 360
      in pushOption toId
           \<lparr>to = fromId, adj_distance = distance e,
            adj_compass_angle = reverseAngle,
            adj_is_staircase = is_staircase e, adj_edge_id = edge_id e\<rparr> g1)"

definition cacheNode :: "node \<Rightarrow> PathFinder \<Rightarrow> PathFinder" where
  "cacheNode n pf =
     pf\<lparr>nodesCache := AList.update (node_id n) n (nodesCache pf),
        graph := AList.update (node_id n) [] (graph pf)\<rparr>"

definition buildGraph :: "database \<Rightarrow> PathFinder \<Rightarrow> PathFinder" where
  "buildGraph db pf =
     (let pf0 = pf\<lparr>nodesCache := [], graph := []\<rparr>;
          pf1 = fold cacheNode (findAllNodes db) pf0;
          pf2 = pf1\<lparr>graph := fold addEdge (findActiveEdges db) (graph pf1)\<rparr>
      in pf2\<lparr>initialized := True\<rparr>)"

definition heuristic :: "(int \<times> node) list \<Rightarrow> int \<Rightarrow> int \<Rightarrow> real" where
  "heuristic cache nodeAId nodeBId =
     (case (map_of cache nodeAId, map_of cache nodeBId) of
        (Some nodeA, Some nodeB) \<Rightarrow>
          of_int \<bar>floor_level nodeA - floor_level nodeB\<bar> * 4
      | _ \<Rightarrow> 0)"

subsection \<open>The A* loop\<close>

record astar_state =
  openSet :: "int heap"
  cameFrom :: "int \<rightharpoonup> int \<times> adj"
  gScore :: "int \<rightharpoonup> real"
  fScore :: "int \<rightharpoonup> real"
  visited :: "int set"

text \<open>
  The body of \<open>for (const edgeInfo of neighbors)\<close>.  \<open>gScore.get(currentId)\<close> is read
  with \<open>the\<close>: every identifier that is popped was given a score when it was pushed.
\<close>

definition relax ::
  "(int \<times> node) list \<Rightarrow> int \<Rightarrow> bool \<Rightarrow> int \<Rightarrow> adj \<Rightarrow> astar_state \<Rightarrow> astar_state" where
  "relax cache goalId avoidStairs currentId edgeInfo st =
     (let neighborId = to edgeInfo in
      if avoidStairs \<and> adj_is_staircase edgeInfo then st
      else
        (let tentativeG = the (gScore st currentId) + adj_distance edgeInfo in
         if gScore st neighborId = None \<or> tentativeG < the (gScore st neighborId) then
           (let f = tentativeG + heuristic cache neighborId goalId in
            st\<lparr>cameFrom := (cameFrom st)(neighborId \<mapsto> (currentId, edgeInfo)),
               gScore := (gScore st)(neighborId \<mapsto> tentativeG),
               fScore := (fScore st)(neighborId \<mapsto> f),
               openSet := push f neighborId (openSet st)\<rparr>)
         else st))"

text \<open>\<open>this.graph.get(currentId) || []\<close>.\<close>

definition neighbors :: "graph \<Rightarrow> int \<Rightarrow> adj list" where
  "neighbors g currentId = (case map_of g currentId of None \<Rightarrow> [] | Some opts \<Rightarrow> opts)"

definition explore ::
  "PathFinder \<Rightarrow> int \<Rightarrow> bool \<Rightarrow> int \<Rightarrow> astar_state \<Rightarrow> astar_state" where
  "explore pf goalId avoidStairs currentId st =
     fold (relax (nodesCache pf) goalId avoidStairs currentId)
          (neighbors (graph pf) currentId) st"

text \<open>
  One turn of \<open>while (!openSet.isEmpty())\<close>: either the loop is left (the open set is
  empty, or the goal has been popped) or it goes on in a new state.  Destructuring the
  \<open>null\<close> of a pop on an empty heap would raise a TypeError.
\<close>

datatype loop_exit = OpenSetEmpty | GoalPopped astar_state | PopNull

datatype turn = Exit loop_exit | Continue astar_state

definition turn :: "PathFinder \<Rightarrow> int \<Rightarrow> bool \<Rightarrow> astar_state \<Rightarrow> turn" where
  "turn pf goalId avoidStairs st =
     (if isEmpty (openSet st) then Exit OpenSetEmpty
      else
        (case pop (openSet st) of
           (None, h) \<Rightarrow> Exit PopNull
         | (Some entry, h) \<Rightarrow>
             (let currentId = val entry;
                  st1 = st\<lparr>openSet := h\<rparr>
              in if currentId \<in> visited st1 then Continue st1
                 else
                   (let st2 = st1\<lparr>visited := insert currentId (visited st1)\<rparr> in
                    if currentId = goalId then Exit (GoalPopped st2)
                    else Continue (explore pf goalId avoidStairs currentId st2)))))"

subsection \<open>The heap keeps its entries\<close>

lemma length_swap [simp]: "length (swap h i j) = length h"
  by (simp add: swap_def)

lemma mset_swap_heap: "i < length h \<Longrightarrow> j < length h \<Longrightarrow> mset (swap h i j) = mset h"
  unfolding swap_def by (metis mset_swap)

lemma length_bubbleUp [simp]: "length (bubbleUp h i) = length h"
  by (induction h i rule: bubbleUp.induct) (subst bubbleUp.simps, simp add: Let_def)

lemma mset_bubbleUp: "i < length h \<Longrightarrow> mset (bubbleUp h i) = mset h"
proof (induction h i rule: bubbleUp.induct)
  case (1 h index)
  show ?case
  proof (cases "index > 0 \<and> \<not> priority (h ! ((index - 1) div 2)) \<le> priority (h ! index)")
    case True
    have lt: "(index - 1) div 2 < length h" using "1.prems" by simp
    have "mset (bubbleUp (swap h ((index - 1) div 2) index) ((index - 1) div 2))
          = mset (swap h ((index - 1) div 2) index)"
      using "1.IH" [OF _ refl] True lt by simp
    also have "\<dots> = mset h" using lt "1.prems" by (rule mset_swap_heap)
    finally show ?thesis using True by (subst bubbleUp.simps) (simp add: Let_def)
  next
    case False
    then show ?thesis by (subst bubbleUp.simps) (auto simp: Let_def)
  qed
qed

lemma length_bubbleDown [simp]: "length (bubbleDown h i) = length h"
  by (induction h i rule: bubbleDown.induct) (subst bubbleDown.simps, simp add: Let_def)

lemma mset_bubbleDown: "mset (bubbleDown h i) = mset h"
proof (induction h i rule: bubbleDown.induct)
  case (1 h index)
  show ?case
  proof (cases "smallestOf h index = index")
    case True
    then show ?thesis by (subst bubbleDown.simps) simp
  next
    case False
    then have s: "smallestOf h index < length h" "index < smallestOf h index"
      using smallestOf_cases [of h index] by auto
    have "mset (bubbleDown (swap h (smallestOf h index) index) (smallestOf h index))
          = mset (swap h (smallestOf h index) index)"
      using "1.IH" [OF refl False] .
    also have "\<dots> = mset h" using s by (intro mset_swap_heap) auto
    finally show ?thesis using False by (subst bubbleDown.simps) (simp add: Let_def)
  qed
qed

lemma mset_push: "mset (push p v h) = add_mset \<lparr>priority = p, val = v\<rparr> (mset h)"
  by (simp add: push_def Let_def mset_bubbleUp)

lemma length_push [simp]: "length (push p v h) = Suc (length h)"
  by (simp add: push_def Let_def)

lemma pop_nonempty:
  assumes "h \<noteq> []"
  obtains e h' where "pop h = (Some e, h')" "mset h = add_mset e (mset h')"
proof (cases "length h = 1")
  case True
  then obtain x where "h = [x]" by (cases h) auto
  then show ?thesis using that by (simp add: pop_def)
next
  case False
  with assms obtain x xs where h: "h = x # xs" "xs \<noteq> []" by (cases h) auto
  have "mset ((butlast h)[0 := last h]) + {#h ! 0#} = mset (butlast xs) + {#last xs#} + {#x#}"
    using h by simp
  also have "\<dots> = mset (butlast xs @ [last xs]) + {#x#}" by simp
  also have "\<dots> = mset h" using h by simp
  finally have "mset ((butlast h)[0 := last h]) + {#h ! 0#} = mset h" .
  then show ?thesis using that [of "h ! 0" "bubbleDown ((butlast h)[0 := last h]) 0"] False assms
    by (simp add: pop_def Let_def mset_bubbleDown)
qed

lemma set_pop:
  assumes "pop h = (Some e, h')"
  shows "mset h = add_mset e (mset h')"
proof -
  have "h \<noteq> []" using assms by (auto simp: pop_def)
  then show ?thesis using assms by (auto elim!: pop_nonempty)
qed

lemma pop_length: "pop h = (Some e, h') \<Longrightarrow> length h = Suc (length h')"
  by (drule set_pop) (metis size_add_mset size_mset)

lemma pop_set: "pop h = (Some e, h') \<Longrightarrow> set h = insert e (set h')"
  by (drule set_pop) (metis set_mset_add_mset_insert set_mset_mset)

lemma set_push: "set (push p v h) = insert \<lparr>priority = p, val = v\<rparr> (set h)"
  by (metis mset_push set_mset_add_mset_insert set_mset_mset)

subsection \<open>What one relaxation and one exploration change\<close>

definition all_tos :: "graph \<Rightarrow> int set" where
  "all_tos g = (\<Union>(k, opts) \<in> set g. to ` set opts)"

lemma finite_all_tos [simp]: "finite (all_tos g)"
  by (auto simp: all_tos_def)

lemma neighbors_all_tos:
  assumes "e \<in> set (neighbors g k)"
  shows "to e \<in> all_tos g"
proof -
  from assms obtain opts where "map_of g k = Some opts" "e \<in> set opts"
    by (cases "map_of g k") (auto simp: neighbors_def)
  then have "(k, opts) \<in> set g" "e \<in> set opts" by (auto dest: map_of_SomeD)
  then show ?thesis by (force simp: all_tos_def)
qed

lemma relax_visited [simp]: "visited (relax c g a k e st) = visited st"
  by (simp add: relax_def Let_def)

lemma relax_openSet:
  "val ` set (openSet (relax c g a k e st)) \<subseteq> insert (to e) (val ` set (openSet st))"
  by (auto simp: relax_def Let_def set_push)

lemma fold_relax_visited [simp]: "visited (fold (relax c g a k) es st) = visited st"
  by (induction es arbitrary: st) simp_all

lemma fold_relax_openSet:
  "val ` set (openSet (fold (relax c g a k) es st)) \<subseteq> to ` set es \<union> val ` set (openSet st)"
proof (induction es arbitrary: st)
  case Nil
  show ?case by simp
next
  case (Cons e es)
  show ?case using Cons.IH [of "relax c g a k e st"] relax_openSet [of c g a k e st]
    by auto
qed

lemma explore_visited [simp]: "visited (explore pf g a k st) = visited st"
  by (simp add: explore_def)

lemma explore_openSet:
  "val ` set (openSet (explore pf g a k st)) \<subseteq> all_tos (graph pf) \<union> val ` set (openSet st)"
  using fold_relax_openSet [of "nodesCache pf" g a k "neighbors (graph pf) k" st]
    neighbors_all_tos [of _ "graph pf" k]
  by (auto simp: explore_def)

lemma turn_Continue:
  assumes "turn pf goalId avoidStairs st = Continue st'"
  obtains e h where "pop (openSet st) = (Some e, h)" "val e \<in> visited st"
      "st' = st\<lparr>openSet := h\<rparr>"
  | e h where "pop (openSet st) = (Some e, h)" "val e \<notin> visited st" "val e \<noteq> goalId"
      "st' = explore pf goalId avoidStairs (val e)
               (st\<lparr>openSet := h, visited := insert (val e) (visited st)\<rparr>)"
  using assms
  by (auto simp: turn_def Let_def split: if_splits prod.splits option.splits)

definition frontier :: "PathFinder \<Rightarrow> astar_state \<Rightarrow> int set" where
  "frontier pf st = (all_tos (graph pf) \<union> val ` set (openSet st)) - visited st"

lemma finite_frontier [simp]: "finite (frontier pf st)"
  by (simp add: frontier_def)

lemma turn_decreases:
  assumes "turn pf goalId avoidStairs st = Continue st'"
  shows "card (frontier pf st') < card (frontier pf st)
       \<or> card (frontier pf st') = card (frontier pf st)
           \<and> length (openSet st') < length (openSet st)"
  using assms
proof (cases rule: turn_Continue)
  case (1 e h)
  have "set (openSet st) = insert e (set h)" using 1 by (simp add: pop_set)
  then have "frontier pf st' = frontier pf st"
    using 1 by (auto simp: frontier_def)
  moreover have "length (openSet st') < length (openSet st)"
    using 1 by (simp add: pop_length)
  ultimately show ?thesis by simp
next
  case (2 e h)
  have s: "set (openSet st) = insert e (set h)" using 2 by (simp add: pop_set)
  let ?st1 = "st\<lparr>openSet := h, visited := insert (val e) (visited st)\<rparr>"
  have "val ` set (openSet st') \<subseteq> all_tos (graph pf) \<union> val ` set h"
    using explore_openSet [of pf goalId avoidStairs "val e" ?st1] 2 by simp
  then have "frontier pf st' \<subseteq> frontier pf st - {val e}"
    using 2 s by (auto simp: frontier_def)
  moreover have "val e \<in> frontier pf st" using 2 s by (auto simp: frontier_def)
  ultimately have "frontier pf st' \<subset> frontier pf st" by auto
  then show ?thesis by (simp add: psubset_card_mono)
qed

function astar_loop :: "PathFinder \<Rightarrow> int \<Rightarrow> bool \<Rightarrow> astar_state \<Rightarrow> loop_exit" where
  "astar_loop pf goalId avoidStairs st =
     (case turn pf goalId avoidStairs st of
        Exit x \<Rightarrow> x
      | Continue st' \<Rightarrow> astar_loop pf goalId avoidStairs st')"
  by pat_completeness auto
termination
proof (relation "inv_image (less_than <*lex*> less_than)
         (\<lambda>(pf, goalId, avoidStairs, st). (card (frontier pf st), length (openSet st)))")
  show "wf (inv_image (less_than <*lex*> less_than)
         (\<lambda>(pf, goalId :: int, avoidStairs :: bool, st).
            (card (frontier pf st), length (openSet st))))"
    by (intro wf_inv_image wf_lex_prod wf_less_than)
next
  fix pf goalId avoidStairs st st'
  assume "turn pf goalId avoidStairs st = Continue st'"
  then show "((pf, goalId, avoidStairs, st'), (pf, goalId, avoidStairs, st))
      \<in> inv_image (less_than <*lex*> less_than)
         (\<lambda>(pf, goalId, avoidStairs, st). (card (frontier pf st), length (openSet st)))"
    using turn_decreases [of pf goalId avoidStairs st st'] by auto
qed

declare astar_loop.simps [simp del]

subsection \<open>reconstructPath and findPath\<close>

record path_step =
  step_node_id :: int
  step_node_code :: string
  step_name :: string
  step_building :: string
  step_floor_level :: int
  step_type :: string
  step_image360 :: "string option"
  step_map_x :: "real option"
  step_map_y :: "real option"
  distance_from_prev :: real
  step_compass_angle :: "real option"
  step_is_staircase :: bool

record path_result =
  success :: bool
  path :: "path_step list"
  total_distance :: real
  num_nodes :: nat
  start :: path_step
  goal :: path_step

text \<open>
  What a call gives back: the object \<open>{error: message}\<close>, the path object, or a TypeError
  raised on reading a property of \<open>undefined\<close>.
\<close>

datatype outcome = ErrorResult string | PathResult path_result | TypeError

text \<open>The fields of a step that are copied from the cached node; \<open>x || null\<close> turns the
  empty string into \<open>null\<close>.\<close>

definition stepOf :: "node \<Rightarrow> real \<Rightarrow> real option \<Rightarrow> bool \<Rightarrow> path_step" where
  "stepOf n d angle stairs =
     \<lparr>step_node_id = node_id n, step_node_code = node_code n, step_name = name n,
      step_building = building n, step_floor_level = floor_level n,
      step_type = type_of_node n,
      step_image360 = (case image360 n of None \<Rightarrow> None
                       | Some s \<Rightarrow> if s = [] then None else Some s),
      step_map_x = map_x n, step_map_y = map_y n,
      distance_from_prev = d, step_compass_angle = angle, step_is_staircase = stairs\<rparr>"

text \<open>
  The loop \<open>while (currentId !== startId)\<close> of \<open>reconstructPath\<close>, with the steps in the
  order they are pushed.  Nothing bounds the walk along \<open>cameFrom\<close>, so not returning
  is the value \<open>None\<close>.
\<close>

partial_function (option) walkBack ::
  "(int \<rightharpoonup> int \<times> adj) \<Rightarrow> (int \<times> node) list \<Rightarrow> int \<Rightarrow> int \<Rightarrow> path_step list
     \<Rightarrow> (unit + path_step list) option" where
  "walkBack cf cache startId currentId steps =
     (if currentId \<noteq> startId then
        (case cf currentId of
           None \<Rightarrow> Some (Inr steps)
         | Some (prev, e) \<Rightarrow>
             (case map_of cache currentId of
                None \<Rightarrow> Some (Inl ())
              | Some n \<Rightarrow>
                  walkBack cf cache startId prev
                    (steps @ [stepOf n (adj_distance e) (Some (adj_compass_angle e))
                                (adj_is_staircase e)])))
      else Some (Inr steps))"

declare walkBack.simps [code]

text \<open>\<open>Math.round\<close> rounds a half up.\<close>

definition js_round :: "real \<Rightarrow> int" where
  "js_round x = \<lfloor>x + 1 / 2\<rfloor>"

definition reconstructPath ::
  "(int \<times> node) list \<Rightarrow> (int \<rightharpoonup> int \<times> adj) \<Rightarrow> int \<Rightarrow> int \<Rightarrow> real \<Rightarrow> outcome option" where
  "reconstructPath cache cf startId goalId totalDistance =
     (case walkBack cf cache startId goalId [] of
        None \<Rightarrow> None
      | Some (Inl u) \<Rightarrow> Some TypeError
      | Some (Inr steps) \<Rightarrow>
          (case map_of cache startId of
             None \<Rightarrow> Some TypeError
           | Some startNode \<Rightarrow>
               (let p = rev (steps @ [stepOf startNode 0 None False]) in
                Some (PathResult
                  \<lparr>success = True, path = p,
                   total_distance = of_int (js_round (totalDistance * 100)) / 100,
                   num_nodes = length p,
                   start = p ! 0, goal = p ! (length p - 1)\<rparr>))))"

definition ensureBuilt :: "database \<Rightarrow> PathFinder \<Rightarrow> PathFinder" where
  "ensureBuilt db pf = (if \<not> initialized pf then buildGraph db pf else pf)"

definition initialState :: "PathFinder \<Rightarrow> int \<Rightarrow> int \<Rightarrow> astar_state" where
  "initialState pf startId goalId =
     \<lparr>openSet = push 0 startId [],
      cameFrom = Map.empty,
      gScore = [startId \<mapsto> 0],
      fScore = [startId \<mapsto> heuristic (nodesCache pf) startId goalId],
      visited = {}\<rparr>"

text \<open>\<open>findPath\<close> gives the outcome (\<open>None\<close> when \<open>reconstructPath\<close> does not return) and
  the engine as the call leaves it.\<close>

definition findPath ::
  "database \<Rightarrow> PathFinder \<Rightarrow> string \<Rightarrow> string \<Rightarrow> bool \<Rightarrow> outcome option \<times> PathFinder" where
  "findPath db pf startCode goalCode avoidStairs =
     (let pf' = ensureBuilt db pf in
      ((case findOne db startCode of
         None \<Rightarrow> Some (ErrorResult (''Start node not found: '' @ startCode))
       | Some startNode \<Rightarrow>
           (case findOne db goalCode of
              None \<Rightarrow> Some (ErrorResult (''Goal node not found: '' @ goalCode))
            | Some goalNode \<Rightarrow>
                (let startId = node_id startNode;
                     goalId = node_id goalNode
                 in case astar_loop pf' goalId avoidStairs (initialState pf' startId goalId) of
                      GoalPopped st \<Rightarrow>
                        reconstructPath (nodesCache pf') (cameFrom st) startId goalId
                          (the (gScore st goalId))
                    | OpenSetEmpty \<Rightarrow>
                        Some (ErrorResult ''No path found between the specified nodes'')
                    | PopNull \<Rightarrow> Some TypeError))),
       pf'))"

subsection \<open>compassToDirection\<close>

definition directions :: "string list" where
  "directions =
     [''North'', ''North-Northeast'', ''Northeast'', ''East-Northeast'',
      ''East'', ''East-Southeast'', ''Southeast'', ''South-Southeast'',
      ''South'', ''South-Southwest'', ''Southwest'', ''West-Southwest'',
      ''West'', ''West-Northwest'', ''Northwest'', ''North-Northwest'']"

text \<open>Reading \<open>directions[index]\<close> at a negative index gives \<open>undefined\<close>, here \<open>None\<close>.\<close>

definition compassToDirection :: "real \<Rightarrow> string option" where
  "compassToDirection angle =
     (let index = js_rem (of_int \<lfloor>(angle + 11.25) / 22.5\<rfloor>) 16 in
      if 0 \<le> index then Some (directions ! nat \<lfloor>index\<rfloor>) else None)"

section \<open>Notions the properties are stated with\<close>

subsection \<open>Heap order\<close>

definition parent :: "nat \<Rightarrow> nat" where
  "parent i = (i - 1) div 2"

definition heap_ok :: "'a heap \<Rightarrow> bool" where
  "heap_ok h = (\<forall>i \<in> {1..<length h}. priority (h ! parent i) \<le> priority (h ! i))"

text \<open>The heap order everywhere but between cell \<open>k\<close> and its parent, the children of
  \<open>k\<close> being in order with the parent of \<open>k\<close>: the shape \<open>bubbleUp\<close> repairs.\<close>

definition ok_but_up :: "'a heap \<Rightarrow> nat \<Rightarrow> bool" where
  "ok_but_up h k =
     ((\<forall>i \<in> {1..<length h}. i \<noteq> k \<longrightarrow> priority (h ! parent i) \<le> priority (h ! i))
      \<and> (\<forall>i \<in> {1..<length h}. parent i = k \<longrightarrow> 0 < k \<longrightarrow>
            priority (h ! parent k) \<le> priority (h ! i)))"

text \<open>The heap order everywhere but between cell \<open>k\<close> and its children, these being in
  order with the parent of \<open>k\<close>: the shape \<open>bubbleDown\<close> repairs.\<close>

definition ok_but_down :: "'a heap \<Rightarrow> nat \<Rightarrow> bool" where
  "ok_but_down h k =
     ((\<forall>i \<in> {1..<length h}. parent i \<noteq> k \<longrightarrow> priority (h ! parent i) \<le> priority (h ! i))
      \<and> (\<forall>i \<in> {1..<length h}. parent i = k \<longrightarrow> 0 < k \<longrightarrow>
            priority (h ! parent k) \<le> priority (h ! i)))"

text \<open>A queue is used through a sequence of operations, from the empty heap of the
  constructor.\<close>

datatype 'a heap_op = Push real 'a | Pop

fun apply_op :: "'a heap_op \<Rightarrow> 'a heap \<Rightarrow> 'a heap" where
  "apply_op (Push p v) h = push p v h"
| "apply_op Pop h = snd (pop h)"

definition run :: "'a heap_op list \<Rightarrow> 'a heap" where
  "run ops = fold apply_op ops []"

subsection \<open>Adjacency options and walks in the snapshot\<close>

text \<open>The two objects \<open>addEdge\<close> pushes for a stored edge.\<close>

definition forwardOption :: "edge \<Rightarrow> adj" where
  "forwardOption e =
     \<lparr>to = to_node_id e, adj_distance = distance e, adj_compass_angle = compass_angle e,
      adj_is_staircase = is_staircase e, adj_edge_id = edge_id e\<rparr>"

definition reverseOption :: "edge \<Rightarrow> adj" where
  "reverseOption e =
     \<lparr>to = from_node_id e, adj_distance = distance e,
      adj_compass_angle = js_rem (compass_angle e + 180) 360,
      adj_is_staircase = is_staircase e, adj_edge_id = edge_id e\<rparr>"

text \<open>With \<open>avoidStairs\<close> a staircase option is not traversed.\<close>

definition allowed :: "bool \<Rightarrow> adj \<Rightarrow> bool" where
  "allowed avoidStairs e = (\<not> (avoidStairs \<and> adj_is_staircase e))"

inductive walk :: "graph \<Rightarrow> int \<Rightarrow> adj list \<Rightarrow> int \<Rightarrow> bool" for g u where
  walk_nil: "walk g u [] u"
| walk_step: "walk g u es v \<Longrightarrow> e \<in> set (neighbors g v) \<Longrightarrow> walk g u (es @ [e]) (to e)"

definition reach :: "graph \<Rightarrow> bool \<Rightarrow> int \<Rightarrow> int \<Rightarrow> bool" where
  "reach g avoidStairs u v = (\<exists>es. walk g u es v \<and> list_all (allowed avoidStairs) es)"

text \<open>What every turn of the loop keeps: the open set holds only nodes that a walk of
  allowed options reaches from the start, and \<open>cameFrom\<close> records only allowed options.\<close>

definition sound :: "PathFinder \<Rightarrow> bool \<Rightarrow> int \<Rightarrow> astar_state \<Rightarrow> bool" where
  "sound pf avoidStairs startId st =
     ((\<forall>x \<in> set (openSet st). reach (graph pf) avoidStairs startId (val x))
      \<and> (\<forall>k p e. cameFrom st k = Some (p, e) \<longrightarrow> allowed avoidStairs e))"

text \<open>Every entry of the open set has a score: \<open>gScore.get\<close> of a popped identifier
  is never \<open>undefined\<close>.\<close>

definition scored :: "astar_state \<Rightarrow> bool" where
  "scored st = (\<forall>x \<in> set (openSet st). gScore st (val x) \<noteq> None)"

definition noPath :: outcome where
  "noPath = ErrorResult ''No path found between the specified nodes''"

text \<open>A node identifier that occurs nowhere in the snapshot: it is no key of the node
  cache or of the adjacency map and no target of an adjacency option.\<close>

definition absent :: "PathFinder \<Rightarrow> int \<Rightarrow> bool" where
  "absent pf i =
     (map_of (nodesCache pf) i = None \<and> map_of (graph pf) i = None
      \<and> i \<notin> all_tos (graph pf))"

section \<open>Concrete campuses\<close>

definition room :: "int \<Rightarrow> string \<Rightarrow> int \<Rightarrow> node" where
  "room i c f =
     \<lparr>node_id = i, node_code = c, name = c, building = ''Main'', floor_level = f,
      type_of_node = ''room'', image360 = None, map_x = None, map_y = None\<rparr>"

definition link :: "int \<Rightarrow> int \<Rightarrow> int \<Rightarrow> real \<Rightarrow> real \<Rightarrow> bool \<Rightarrow> edge" where
  "link i a b d th s =
     \<lparr>edge_id = i, from_node_id = a, to_node_id = b, distance = d,
      compass_angle = th, is_staircase = s, is_active = True\<rparr>"

text \<open>The scenario of the specification: A and B on floor 0, C on floor 1, a corridor
  A\<rightarrow>B of 10 m heading 90\<degree> and a staircase B\<rightarrow>C of 5 m heading 0\<degree>.\<close>

definition scenario :: database where
  "scenario =
     \<lparr>db_nodes = [room 1 ''A'' 0, room 2 ''B'' 0, room 3 ''C'' 1],
      db_edges = [link 1 1 2 10 90 False, link 2 2 3 5 0 True]\<rparr>"

text \<open>A campus on which a cheaper way to a node that is already visited is found later:
  S, U and G on floor 0, W on floor 1; S\<rightarrow>U 3 m, S\<rightarrow>W 1 m, W\<rightarrow>U 1 m, U\<rightarrow>G 10 m.\<close>

definition detour :: database where
  "detour =
     \<lparr>db_nodes = [room 1 ''S'' 0, room 2 ''U'' 0, room 3 ''W'' 1, room 4 ''G'' 0],
      db_edges = [link 1 1 2 3 90 False, link 2 1 3 1 0 False,
                  link 3 3 2 1 0 False, link 4 2 4 10 0 False]\<rparr>"

text \<open>A campus before and after the node X is created; the engine \<open>stale\<close> was built before.\<close>

definition before_X :: database where
  "before_X = \<lparr>db_nodes = [room 1 ''A'' 0], db_edges = []\<rparr>"

definition after_X :: database where
  "after_X = \<lparr>db_nodes = [room 1 ''A'' 0, room 2 ''X'' 0], db_edges = []\<rparr>"

definition stale :: PathFinder where
  "stale = buildGraph before_X newPathFinder"

section \<open>Properties\<close>

subsection \<open>Small steps of the heap and of the walk\<close>

lemma bubbleUp_0 [simp]: "bubbleUp h 0 = h"
  by (subst bubbleUp.simps) simp

lemma push_empty [simp]: "push p v [] = [\<lparr>priority = p, val = v\<rparr>]"
  by (simp add: push_def)

lemma pop_single [simp]: "pop [e] = (Some e, [])"
  by (simp add: pop_def)

lemma walkBack_start [simp]: "walkBack cf cache s s steps = Some (Inr steps)"
  by (subst walkBack.simps) simp

lemma js_round_0 [simp]: "js_round 0 = 0"
  by (simp add: js_round_def)

subsection \<open>The engine after a reset\<close>

lemma fold_cacheNode:
  "fold cacheNode ns pf =
     pf\<lparr>nodesCache := fold (\<lambda>n. AList.update (node_id n) n) ns (nodesCache pf),
        graph := fold (\<lambda>n. AList.update (node_id n) []) ns (graph pf)\<rparr>"
  by (induction ns arbitrary: pf) (simp_all add: cacheNode_def)

lemma buildGraph_fresh: "buildGraph db pf = buildGraph db newPathFinder"
  by (simp add: buildGraph_def newPathFinder_def Let_def fold_cacheNode)

lemma initialized_buildGraph [simp]: "initialized (buildGraph db pf)"
  by (simp add: buildGraph_def Let_def)

lemma ensureBuilt_reset: "ensureBuilt db (reset pf) = buildGraph db newPathFinder"
  using buildGraph_fresh [of db "reset pf"] by (simp add: ensureBuilt_def reset_def)

lemma ensureBuilt_new: "ensureBuilt db newPathFinder = buildGraph db newPathFinder"
  by (simp add: ensureBuilt_def newPathFinder_def)

lemma ensureBuilt_built: "ensureBuilt db' (buildGraph db pf) = buildGraph db pf"
  by (simp add: ensureBuilt_def)

lemma findPath_cong:
  "ensureBuilt db pf = ensureBuilt db pf' \<Longrightarrow> findPath db pf s g a = findPath db pf' s g a"
  by (simp add: findPath_def)

text \<open>
  C9: after \<open>reset\<close>, the next \<open>findPath\<close> gives exactly what it gives on a newly
  constructed engine over the data layer's current contents, and leaves the snapshot
  built from these contents; it is also what a query on that snapshot gives.  Nothing
  of the engine's earlier state \<open>pf\<close> is left in the answer.
\<close>

theorem reset_then_findPath:
  "findPath db (reset pf) startCode goalCode avoidStairs
     = findPath db newPathFinder startCode goalCode avoidStairs
   \<and> snd (findPath db (reset pf) startCode goalCode avoidStairs) = buildGraph db newPathFinder
   \<and> findPath db (reset pf) startCode goalCode avoidStairs
     = findPath db (buildGraph db newPathFinder) startCode goalCode avoidStairs"
proof (intro conjI)
  show "findPath db (reset pf) startCode goalCode avoidStairs
     = findPath db newPathFinder startCode goalCode avoidStairs"
    by (rule findPath_cong) (simp add: ensureBuilt_reset ensureBuilt_new)
  show "snd (findPath db (reset pf) startCode goalCode avoidStairs) = buildGraph db newPathFinder"
    by (simp add: findPath_def Let_def ensureBuilt_reset)
  show "findPath db (reset pf) startCode goalCode avoidStairs
     = findPath db (buildGraph db newPathFinder) startCode goalCode avoidStairs"
    by (rule findPath_cong) (simp add: ensureBuilt_reset ensureBuilt_built)
qed

subsection \<open>A route from a node to itself\<close>

text \<open>
  C5: when the code resolves to a node whose identifier is in the snapshot's node
  cache, \<open>findPath(X, X, avoidStairs)\<close> succeeds with exactly one step, the cached node
  with \<open>distance_from_prev = 0\<close>, no compass angle and no staircase, and
  \<open>total_distance = 0\<close>, whatever \<open>avoidStairs\<close> is.
\<close>

theorem findPath_same_node:
  assumes "findOne db code = Some x"
    and "map_of (nodesCache (ensureBuilt db pf)) (node_id x) = Some n"
  shows "fst (findPath db pf code code avoidStairs) =
     Some (PathResult
       \<lparr>success = True, path = [stepOf n 0 None False], total_distance = 0, num_nodes = 1,
        start = stepOf n 0 None False, goal = stepOf n 0 None False\<rparr>)"
proof -
  let ?pf = "ensureBuilt db pf"
  let ?s = "node_id x"
  have "turn ?pf ?s avoidStairs (initialState ?pf ?s ?s) =
      Exit (GoalPopped ((initialState ?pf ?s ?s)\<lparr>openSet := [], visited := {?s}\<rparr>))"
    by (simp add: turn_def initialState_def isEmpty_def Let_def)
  then have "astar_loop ?pf ?s avoidStairs (initialState ?pf ?s ?s) =
      GoalPopped ((initialState ?pf ?s ?s)\<lparr>openSet := [], visited := {?s}\<rparr>)"
    by (subst astar_loop.simps) simp
  then show ?thesis using assms
    by (simp add: findPath_def Let_def reconstructPath_def initialState_def)
qed

theorem findPath_same_node_witness:
  "findOne scenario ''A'' = Some (room 1 ''A'' 0)
   \<and> map_of (nodesCache (ensureBuilt scenario newPathFinder)) 1 = Some (room 1 ''A'' 0)
   \<and> fst (findPath scenario newPathFinder ''A'' ''A'' True) =
     Some (PathResult
       \<lparr>success = True, path = [stepOf (room 1 ''A'' 0) 0 None False],
        total_distance = 0, num_nodes = 1,
        start = stepOf (room 1 ''A'' 0) 0 None False,
        goal = stepOf (room 1 ''A'' 0) 0 None False\<rparr>)"
proof -
  have a: "findOne scenario ''A'' = Some (room 1 ''A'' 0)"
    by code_simp
  have b: "map_of (nodesCache (ensureBuilt scenario newPathFinder)) (node_id (room 1 ''A'' 0))
      = Some (room 1 ''A'' 0)"
    by code_simp
  have c: "node_id (room 1 ''A'' 0) = 1" by (simp add: room_def)
  show ?thesis
    using findPath_same_node [OF a b, of True] a b c by simp
qed

subsection \<open>Compass words\<close>

lemma js_rem_of_int:
  assumes "0 \<le> k"
  shows "js_rem (of_int k) 16 = of_int (k mod 16)"
proof -
  have "\<lfloor>(of_int k :: real) / 16\<rfloor> = k div 16"
    using floor_divide_of_int_eq [of k 16, where ?'a = real] by simp
  moreover have "k mod 16 = k - 16 * (k div 16)"
    by (simp add: minus_mult_div_eq_mod)
  ultimately show ?thesis using assms by (simp add: js_rem_def)
qed

text \<open>
  C6: for an angle from \<open>-11.25\<close> on (every stored and every reversed compass angle is
  at least 0), \<open>compassToDirection\<close> gives the name at index
  \<open>floor((angle + 11.25) / 22.5) mod 16\<close> of the sixteen names in clockwise order from
  North; 0 and 359.9 give North, 90 East, 180 South and 270 West.
\<close>

theorem compass_word:
  assumes "- 11.25 \<le> angle"
  shows "compassToDirection angle
           = Some (directions ! nat (\<lfloor>(angle + 11.25) / 22.5\<rfloor> mod 16))
    \<and> length directions = 16 \<and> directions ! 0 = ''North''
    \<and> compassToDirection 0 = Some ''North''
    \<and> compassToDirection 359.9 = Some ''North''
    \<and> compassToDirection 90 = Some ''East''
    \<and> compassToDirection 180 = Some ''South''
    \<and> compassToDirection 270 = Some ''West''"
proof (intro conjI)
  have fl: "\<lfloor>(angle + 11.25) / 22.5\<rfloor> \<ge> 0" using assms by simp
  show "compassToDirection angle = Some (directions ! nat (\<lfloor>(angle + 11.25) / 22.5\<rfloor> mod 16))"
    using fl by (simp add: compassToDirection_def js_rem_of_int Let_def)
  show "length directions = 16" by (simp add: directions_def)
  show "directions ! 0 = ''North''" by (simp add: directions_def)
  show "compassToDirection 0 = Some ''North''"
    by (simp add: compassToDirection_def js_rem_def directions_def)
  show "compassToDirection 359.9 = Some ''North''"
    by (simp add: compassToDirection_def js_rem_def directions_def)
  show "compassToDirection 90 = Some ''East''"
    by (simp add: compassToDirection_def js_rem_def directions_def)
  show "compassToDirection 180 = Some ''South''"
    by (simp add: compassToDirection_def js_rem_def directions_def)
  show "compassToDirection 270 = Some ''West''"
    by (simp add: compassToDirection_def js_rem_def directions_def)
qed

theorem compass_word_witness:
  "- 11.25 \<le> (100 :: real) \<and> compassToDirection 100 = Some ''East''"
proof -
  have h: "- 11.25 \<le> (100 :: real)" by simp
  have "\<lfloor>(100 + 11.25) / 22.5 :: real\<rfloor> = 4" by (simp add: floor_eq_iff)
  then show ?thesis using compass_word [OF h] by (simp add: directions_def)
qed

subsection \<open>The scenario of the specification\<close>

text \<open>
  C7: on the scenario, a fresh engine answers \<open>findPath(A, C, false)\<close> with the path
  A, B, C and \<open>total_distance = 15\<close>, and \<open>findPath(A, C, true)\<close> with the error
  \<open>No path found between the specified nodes\<close>.
\<close>

theorem scenario_routes:
  "(case fst (findPath scenario newPathFinder ''A'' ''C'' False) of
      Some (PathResult r) \<Rightarrow>
        map step_node_code (path r) = [''A'', ''B'', ''C''] \<and> total_distance r = 15
    | _ \<Rightarrow> False)
   \<and> fst (findPath scenario newPathFinder ''A'' ''C'' True)
       = Some (ErrorResult ''No path found between the specified nodes'')"
  by code_simp

subsection \<open>What buildGraph puts into the adjacency lists\<close>

lemma map_of_pushOption:
  "map_of (pushOption k opt g) k' =
     (if k' = k then map_option (\<lambda>opts. opts @ [opt]) (map_of g k) else map_of g k')"
  by (cases "map_of g k") (simp_all add: pushOption_def update_conv')

lemma neighbors_pushOption:
  "neighbors (pushOption k opt g) k' =
     (if k' = k \<and> map_of g k \<noteq> None then neighbors g k @ [opt] else neighbors g k')"
  by (cases "map_of g k") (auto simp: neighbors_def map_of_pushOption)

lemma has_pushOption [simp]: "(map_of (pushOption k opt g) k' = None) = (map_of g k' = None)"
  by (simp add: map_of_pushOption)

lemma addEdge_alt:
  "addEdge e g = pushOption (to_node_id e) (reverseOption e)
                   (pushOption (from_node_id e) (forwardOption e) g)"
  by (simp add: addEdge_def Let_def forwardOption_def reverseOption_def)

lemma has_addEdge [simp]: "(map_of (addEdge e g) k = None) = (map_of g k = None)"
  by (simp add: addEdge_alt)

lemma neighbors_addEdge_mono: "x \<in> set (neighbors g k) \<Longrightarrow> x \<in> set (neighbors (addEdge e g) k)"
  by (auto simp: addEdge_alt neighbors_pushOption)

lemma neighbors_addEdge_forward:
  "map_of g (from_node_id e) \<noteq> None \<Longrightarrow>
     forwardOption e \<in> set (neighbors (addEdge e g) (from_node_id e))"
  by (auto simp: addEdge_alt neighbors_pushOption)

lemma neighbors_addEdge_reverse:
  "map_of g (to_node_id e) \<noteq> None \<Longrightarrow>
     reverseOption e \<in> set (neighbors (addEdge e g) (to_node_id e))"
  by (auto simp: addEdge_alt neighbors_pushOption)

lemma has_fold_addEdge [simp]:
  "(map_of (fold addEdge es g) k = None) = (map_of g k = None)"
  by (induction es arbitrary: g) simp_all

lemma neighbors_fold_addEdge_mono:
  "x \<in> set (neighbors g k) \<Longrightarrow> x \<in> set (neighbors (fold addEdge es g) k)"
  by (induction es arbitrary: g) (simp_all add: neighbors_addEdge_mono)

lemma neighbors_fold_addEdge_forward:
  "e \<in> set es \<Longrightarrow> map_of g (from_node_id e) \<noteq> None \<Longrightarrow>
     forwardOption e \<in> set (neighbors (fold addEdge es g) (from_node_id e))"
proof (induction es arbitrary: g)
  case Nil
  then show ?case by simp
next
  case (Cons a es)
  show ?case
  proof (cases "e = a")
    case True
    then show ?thesis
      using Cons.prems by (simp add: neighbors_fold_addEdge_mono neighbors_addEdge_forward)
  next
    case False
    then have "e \<in> set es" using Cons.prems by simp
    moreover have "map_of (addEdge a g) (from_node_id e) \<noteq> None"
      using Cons.prems(2) by (simp only: has_addEdge not_False_eq_True)
    ultimately show ?thesis using Cons.IH [of "addEdge a g"] by simp
  qed
qed

lemma neighbors_fold_addEdge_reverse:
  "e \<in> set es \<Longrightarrow> map_of g (to_node_id e) \<noteq> None \<Longrightarrow>
     reverseOption e \<in> set (neighbors (fold addEdge es g) (to_node_id e))"
proof (induction es arbitrary: g)
  case Nil
  then show ?case by simp
next
  case (Cons a es)
  show ?case
  proof (cases "e = a")
    case True
    then show ?thesis
      using Cons.prems by (simp add: neighbors_fold_addEdge_mono neighbors_addEdge_reverse)
  next
    case False
    then have "e \<in> set es" using Cons.prems by simp
    moreover have "map_of (addEdge a g) (to_node_id e) \<noteq> None"
      using Cons.prems(2) by (simp only: has_addEdge not_False_eq_True)
    ultimately show ?thesis using Cons.IH [of "addEdge a g"] by simp
  qed
qed

lemma map_of_fold_update_nodes:
  "map_of (fold (\<lambda>n. AList.update (node_id n) (f n)) ns g) k = None
     \<longleftrightarrow> k \<notin> node_id ` set ns \<and> map_of g k = None"
  by (induction ns arbitrary: g) (auto simp: update_conv')

lemma graph_buildGraph:
  "graph (buildGraph db pf) =
     fold addEdge (findActiveEdges db)
       (fold (\<lambda>n. AList.update (node_id n) []) (findAllNodes db) [])"
  by (simp add: buildGraph_def Let_def fold_cacheNode)

lemma nodesCache_buildGraph:
  "nodesCache (buildGraph db pf) =
     fold (\<lambda>n. AList.update (node_id n) n) (findAllNodes db) []"
  by (simp add: buildGraph_def Let_def fold_cacheNode)

lemma has_graph_buildGraph:
  "map_of (graph (buildGraph db pf)) k = None \<longleftrightarrow> k \<notin> node_id ` set (db_nodes db)"
  by (simp add: graph_buildGraph map_of_fold_update_nodes findAllNodes_def)

lemma has_nodesCache_buildGraph:
  "map_of (nodesCache (buildGraph db pf)) k = None \<longleftrightarrow> k \<notin> node_id ` set (db_nodes db)"
  by (simp add: nodesCache_buildGraph map_of_fold_update_nodes findAllNodes_def)

lemma js_rem_nonneg: "0 \<le> x \<Longrightarrow> js_rem x 360 = x - 360 * of_int \<lfloor>x / 360\<rfloor>"
  by (simp add: js_rem_def)

text \<open>
  C3: for a stored active edge A\<rightarrow>B with distance \<open>d\<close>, compass angle \<open>\<theta>\<close> (from
  \<open>-180\<close> on; the model validates it to be at least 0) and staircase flag \<open>s\<close>, both ends
  being nodes of the data layer, the snapshot holds the option \<open>(to B, d, \<theta>, s)\<close> in the
  adjacency list of A and the option \<open>(to A, d, (\<theta> + 180) mod 360, s)\<close> in that of B:
  the same distance both ways.
\<close>

theorem buildGraph_both_directions:
  assumes "e \<in> set (db_edges db)" and "is_active e"
    and "from_node_id e \<in> node_id ` set (db_nodes db)"
    and "to_node_id e \<in> node_id ` set (db_nodes db)"
    and "- 180 \<le> compass_angle e"
  shows "\<lparr>to = to_node_id e, adj_distance = distance e, adj_compass_angle = compass_angle e,
           adj_is_staircase = is_staircase e, adj_edge_id = edge_id e\<rparr>
          \<in> set (neighbors (graph (buildGraph db pf)) (from_node_id e))
     \<and> \<lparr>to = from_node_id e, adj_distance = distance e,
         adj_compass_angle =
           (compass_angle e + 180) - 360 * of_int \<lfloor>(compass_angle e + 180) / 360\<rfloor>,
         adj_is_staircase = is_staircase e, adj_edge_id = edge_id e\<rparr>
          \<in> set (neighbors (graph (buildGraph db pf)) (to_node_id e))"
proof -
  let ?g0 = "fold (\<lambda>n. AList.update (node_id n) []) (findAllNodes db) []"
  have act: "e \<in> set (findActiveEdges db)" using assms by (simp add: findActiveEdges_def)
  have f: "map_of ?g0 (from_node_id e) \<noteq> None" and t: "map_of ?g0 (to_node_id e) \<noteq> None"
    using assms by (simp_all add: map_of_fold_update_nodes findAllNodes_def)
  have "forwardOption e \<in> set (neighbors (graph (buildGraph db pf)) (from_node_id e))"
    unfolding graph_buildGraph using act f by (rule neighbors_fold_addEdge_forward)
  moreover have "reverseOption e \<in> set (neighbors (graph (buildGraph db pf)) (to_node_id e))"
    unfolding graph_buildGraph using act t by (rule neighbors_fold_addEdge_reverse)
  ultimately show ?thesis
    using assms(5) by (simp add: forwardOption_def reverseOption_def js_rem_nonneg)
qed

theorem buildGraph_both_directions_witness:
  "\<lparr>to = 2, adj_distance = 10, adj_compass_angle = 90, adj_is_staircase = False,
     adj_edge_id = 1\<rparr> \<in> set (neighbors (graph (buildGraph scenario newPathFinder)) 1)
   \<and> \<lparr>to = 1, adj_distance = 10, adj_compass_angle = 270, adj_is_staircase = False,
       adj_edge_id = 1\<rparr> \<in> set (neighbors (graph (buildGraph scenario newPathFinder)) 2)"
proof -
  let ?e = "link 1 1 2 10 90 False"
  have 1: "?e \<in> set (db_edges scenario)" by (simp add: scenario_def)
  have 2: "is_active ?e" by (simp add: link_def)
  have 3: "from_node_id ?e \<in> node_id ` set (db_nodes scenario)"
    and 4: "to_node_id ?e \<in> node_id ` set (db_nodes scenario)"
    by (simp_all add: scenario_def link_def room_def)
  have 5: "- 180 \<le> compass_angle ?e" by (simp add: link_def)
  have "\<lfloor>(270 :: real) / 360\<rfloor> = 0" by (simp add: floor_eq_iff)
  then show ?thesis
    using buildGraph_both_directions [OF 1 2 3 4 5, of newPathFinder] by (simp add: link_def)
qed

subsection \<open>The search reaches only what a walk of allowed options reaches\<close>

lemma reach_refl [simp]: "reach g a u u"
  unfolding reach_def by (rule exI [of _ "[]"]) (simp add: walk_nil)

lemma reach_step:
  assumes "reach g a u v" "e \<in> set (neighbors g v)" "allowed a e"
  shows "reach g a u (to e)"
proof -
  from assms(1) obtain es where "walk g u es v" "list_all (allowed a) es"
    by (auto simp: reach_def)
  then have "walk g u (es @ [e]) (to e)" "list_all (allowed a) (es @ [e])"
    using assms by (auto intro: walk_step)
  then show ?thesis unfolding reach_def by blast
qed

lemma sound_relax:
  assumes "sound pf a s st" "reach (graph pf) a s k" "e \<in> set (neighbors (graph pf) k)"
  shows "sound pf a s (relax c g a k e st)"
  using assms reach_step [of "graph pf" a s k e]
  by (auto simp: sound_def relax_def Let_def set_push allowed_def)

lemma sound_fold_relax:
  assumes "sound pf a s st" "reach (graph pf) a s k" "set es \<subseteq> set (neighbors (graph pf) k)"
  shows "sound pf a s (fold (relax c g a k) es st)"
  using assms
proof (induction es arbitrary: st)
  case Nil
  then show ?case by simp
next
  case (Cons e es)
  then show ?case using sound_relax [of pf a s st k e c g] by simp
qed

lemma sound_explore:
  assumes "sound pf a s st" "reach (graph pf) a s k"
  shows "sound pf a s (explore pf g a k st)"
  unfolding explore_def using assms by (rule sound_fold_relax) simp

lemma sound_turn:
  assumes "sound pf a s st" "turn pf g a st = Continue st'"
  shows "sound pf a s st'"
  using assms(2)
proof (cases rule: turn_Continue)
  case (1 e h)
  then have "set h \<subseteq> set (openSet st)" by (auto simp: pop_set)
  then show ?thesis using assms(1) 1 by (auto simp: sound_def)
next
  case (2 e h)
  then have s: "set (openSet st) = insert e (set h)" by (simp add: pop_set)
  let ?st1 = "st\<lparr>openSet := h, visited := insert (val e) (visited st)\<rparr>"
  have "sound pf a s ?st1" using assms(1) s by (auto simp: sound_def)
  moreover have "reach (graph pf) a s (val e)" using assms(1) s by (auto simp: sound_def)
  ultimately show ?thesis using 2 by (simp add: sound_explore)
qed

lemma sound_initialState: "sound pf a s (initialState pf s g)"
  by (simp add: sound_def initialState_def)

lemma scored_initialState: "scored (initialState pf s g)"
  by (simp add: scored_def initialState_def)

lemma scored_relax: "scored st \<Longrightarrow> scored (relax c g a k e st)"
  by (auto simp: scored_def relax_def Let_def set_push)

lemma scored_explore: "scored st \<Longrightarrow> scored (explore pf g a k st)"
proof -
  have "scored st \<Longrightarrow> scored (fold (relax c g a k) es st)" for c es
    by (induction es arbitrary: st) (simp_all add: scored_relax)
  then show "scored st \<Longrightarrow> scored (explore pf g a k st)" by (simp add: explore_def)
qed

lemma scored_turn:
  assumes "scored st" "turn pf g a st = Continue st'"
  shows "scored st'"
  using assms(2)
proof (cases rule: turn_Continue)
  case (1 e h)
  then show ?thesis using assms(1) by (auto simp: scored_def pop_set)
next
  case (2 e h)
  then have "scored (st\<lparr>openSet := h, visited := insert (val e) (visited st)\<rparr>)"
    using assms(1) by (auto simp: scored_def pop_set)
  then show ?thesis using 2 by (simp add: scored_explore)
qed

lemma popped_is_scored:
  assumes "scored st" "pop (openSet st) = (Some e, h)"
  shows "gScore st (val e) \<noteq> None"
  using assms by (auto simp: scored_def pop_set)

text \<open>Whatever holds before the loop and is kept by a turn holds in the state the loop
  is left from.\<close>

lemma astar_loop_exit:
  assumes "I st" and "\<And>st st'. I st \<Longrightarrow> turn pf g a st = Continue st' \<Longrightarrow> I st'"
  shows "\<exists>st'. I st' \<and> turn pf g a st' = Exit (astar_loop pf g a st)"
  using assms
proof (induction pf g a st rule: astar_loop.induct)
  case (1 pf goalId avoidStairs st)
  show ?case
  proof (cases "turn pf goalId avoidStairs st")
    case (Exit x)
    then have "astar_loop pf goalId avoidStairs st = x" by (subst astar_loop.simps) simp
    then show ?thesis using Exit "1.prems"(1) by auto
  next
    case (Continue st2)
    then have eq: "astar_loop pf goalId avoidStairs st = astar_loop pf goalId avoidStairs st2"
      by (subst astar_loop.simps) simp
    have "I st2" using "1.prems" Continue by blast
    then show ?thesis using "1.IH" [OF Continue] "1.prems"(2) eq by simp
  qed
qed

lemma turn_Exit:
  assumes "turn pf goalId a st = Exit x"
  obtains "x = OpenSetEmpty" "openSet st = []"
  | e h where "x = GoalPopped (st\<lparr>openSet := h, visited := insert goalId (visited st)\<rparr>)"
      "pop (openSet st) = (Some e, h)" "val e = goalId"
proof (cases "openSet st = []")
  case True
  then show ?thesis using assms that(1) by (simp add: turn_def isEmpty_def)
next
  case False
  then obtain e h where p: "pop (openSet st) = (Some e, h)" by (rule pop_nonempty)
  then show ?thesis using assms False that(2) [of h e]
    by (auto simp: turn_def isEmpty_def Let_def split: if_splits)
qed

lemma astar_loop_cases:
  obtains "astar_loop pf goalId a (initialState pf s goalId) = OpenSetEmpty"
  | st where "astar_loop pf goalId a (initialState pf s goalId) = GoalPopped st"
      "reach (graph pf) a s goalId"
      "\<forall>k p e. cameFrom st k = Some (p, e) \<longrightarrow> allowed a e"
proof -
  obtain st' where i: "sound pf a s st'"
    and t: "turn pf goalId a st' = Exit (astar_loop pf goalId a (initialState pf s goalId))"
    using astar_loop_exit [of "sound pf a s" "initialState pf s goalId" pf goalId a]
      sound_initialState sound_turn by blast
  from t show ?thesis
  proof (cases rule: turn_Exit)
    case 1
    then show ?thesis using that(1) by simp
  next
    case (2 e h)
    then have "e \<in> set (openSet st')" by (simp add: pop_set)
    then have "reach (graph pf) a s goalId" using i 2 by (auto simp: sound_def)
    then show ?thesis using that(2) 2 i by (auto simp: sound_def)
  qed
qed

lemma findPath_unreachable:
  assumes "findOne db startCode = Some x" "findOne db goalCode = Some y"
    and "\<not> reach (graph (ensureBuilt db pf)) a (node_id x) (node_id y)"
  shows "fst (findPath db pf startCode goalCode a) = Some noPath"
proof (cases rule: astar_loop_cases [of "ensureBuilt db pf" "node_id y" a "node_id x"])
  case 1
  then show ?thesis using assms by (simp add: findPath_def Let_def noPath_def)
next
  case (2 st)
  then show ?thesis using assms(3) by simp
qed

lemma walkBack_no_stairs:
  assumes w: "walkBack cf cache s cur steps = Some (Inr res)"
    and cf: "\<forall>k p e. cf k = Some (p, e) \<longrightarrow> \<not> adj_is_staircase e"
    and st: "\<forall>t \<in> set steps. \<not> step_is_staircase t"
  shows "\<forall>t \<in> set res. \<not> step_is_staircase t"
proof -
  let ?P = "\<lambda>(cf :: int \<rightharpoonup> int \<times> adj) (cache :: (int \<times> node) list) (s :: int) (cur :: int)
      steps (y :: unit + path_step list).
      (\<forall>k p e. cf k = Some (p, e) \<longrightarrow> \<not> adj_is_staircase e) \<longrightarrow>
      (\<forall>t \<in> set steps. \<not> step_is_staircase t) \<longrightarrow>
      (\<forall>res. y = Inr res \<longrightarrow> (\<forall>t \<in> set res. \<not> step_is_staircase t))"
  have "?P cf cache s cur steps (Inr res)"
  proof (rule walkBack.raw_induct [where P = ?P, OF _ w], goal_cases)
    case (1 f cf cache startId currentId steps y)
    show ?case
    proof (intro impI allI)
      fix res
      assume cf: "\<forall>k p e. cf k = Some (p, e) \<longrightarrow> \<not> adj_is_staircase e"
        and st: "\<forall>t \<in> set steps. \<not> step_is_staircase t" and y: "y = Inr res"
      show "\<forall>t \<in> set res. \<not> step_is_staircase t"
      proof (cases "currentId \<noteq> startId \<and> cf currentId \<noteq> None
                      \<and> map_of cache currentId \<noteq> None")
        case False
        then show ?thesis using 1(2) st y
          by (auto split: if_splits option.splits prod.splits)
      next
        case True
        then obtain p e n where c: "cf currentId = Some (p, e)" "map_of cache currentId = Some n"
          by auto
        let ?steps = "steps @ [stepOf n (adj_distance e) (Some (adj_compass_angle e))
                                 (adj_is_staircase e)]"
        have w: "f cf cache startId p ?steps = Some y"
          using 1(2) True c by simp
        have "\<not> adj_is_staircase e" using cf c by blast
        then have "\<forall>t \<in> set ?steps. \<not> step_is_staircase t" using st by (simp add: stepOf_def)
        then show ?thesis using 1(1) [OF w] cf y by blast
      qed
    qed
  qed
  then show ?thesis using cf st by blast
qed

lemma reconstructPath_no_stairs:
  assumes "reconstructPath cache cf s g d = Some (PathResult r)"
    and "\<forall>k p e. cf k = Some (p, e) \<longrightarrow> \<not> adj_is_staircase e"
  shows "\<forall>t \<in> set (path r). \<not> step_is_staircase t"
proof -
  from assms(1) obtain steps n where w: "walkBack cf cache s g [] = Some (Inr steps)"
    and r: "path r = rev (steps @ [stepOf n 0 None False])"
    by (auto simp: reconstructPath_def Let_def split: option.splits sum.splits)
  have "\<forall>t \<in> set steps. \<not> step_is_staircase t"
    using w assms(2) by (rule walkBack_no_stairs) simp
  then show ?thesis using r by (auto simp: stepOf_def)
qed

lemma not_reach_iff:
  "(\<not> reach g True u v) = (\<forall>es. walk g u es v \<longrightarrow> (\<exists>e \<in> set es. adj_is_staircase e))"
  by (auto simp: reach_def allowed_def list_all_iff)

lemma reach_closed:
  assumes "walk g u es v" "list_all (allowed a) es" "u \<in> S"
    and "\<forall>k \<in> S. \<forall>e \<in> set (neighbors g k). allowed a e \<longrightarrow> to e \<in> S"
  shows "v \<in> S"
  using assms by (induction rule: walk.induct) auto

lemma walk_first:
  assumes "walk g u es v" "u \<noteq> v"
  shows "neighbors g u \<noteq> []"
  using assms
proof (induction rule: walk.induct)
  case walk_nil
  then show ?case by simp
next
  case (walk_step es v e)
  show ?case
  proof (cases "u = v")
    case True
    then show ?thesis using walk_step.hyps(2) by auto
  next
    case False
    then show ?thesis by (rule walk_step.IH)
  qed
qed

lemma walk_last:
  assumes "walk g u es v" "u \<noteq> v"
  shows "\<exists>k e. e \<in> set (neighbors g k) \<and> to e = v"
  using assms by (cases rule: walk.cases) auto

text \<open>
  C1: with \<open>avoidStairs = true\<close>, a path that \<open>findPath\<close> returns has no step whose
  \<open>is_staircase\<close> flag is set; and when both codes name nodes and every walk in the
  snapshot from the start node to the goal node goes over a staircase option, the call
  returns the error \<open>No path found between the specified nodes\<close>.
\<close>

theorem avoidStairs_respected:
  "(\<forall>r. fst (findPath db pf startCode goalCode True) = Some (PathResult r) \<longrightarrow>
        (\<forall>t \<in> set (path r). \<not> step_is_staircase t))
   \<and> (\<forall>x y. findOne db startCode = Some x \<and> findOne db goalCode = Some y
         \<and> (\<forall>es. walk (graph (ensureBuilt db pf)) (node_id x) es (node_id y) \<longrightarrow>
                (\<exists>e \<in> set es. adj_is_staircase e)) \<longrightarrow>
        fst (findPath db pf startCode goalCode True)
          = Some (ErrorResult ''No path found between the specified nodes''))"
proof (intro conjI allI impI)
  fix r
  assume res: "fst (findPath db pf startCode goalCode True) = Some (PathResult r)"
  then obtain x y where xy: "findOne db startCode = Some x" "findOne db goalCode = Some y"
    by (auto simp: findPath_def Let_def split: option.splits)
  let ?pf = "ensureBuilt db pf"
  show "\<forall>t \<in> set (path r). \<not> step_is_staircase t"
  proof (cases rule: astar_loop_cases [of ?pf "node_id y" True "node_id x"])
    case 1
    then show ?thesis using res xy by (simp add: findPath_def Let_def)
  next
    case (2 st)
    then have "reconstructPath (nodesCache ?pf) (cameFrom st) (node_id x) (node_id y)
                 (the (gScore st (node_id y))) = Some (PathResult r)"
      using res xy by (simp add: findPath_def Let_def)
    moreover have "\<forall>k p e. cameFrom st k = Some (p, e) \<longrightarrow> \<not> adj_is_staircase e"
      using 2(3) by (simp add: allowed_def)
    ultimately show ?thesis by (rule reconstructPath_no_stairs)
  qed
next
  fix x y
  assume a: "findOne db startCode = Some x \<and> findOne db goalCode = Some y
         \<and> (\<forall>es. walk (graph (ensureBuilt db pf)) (node_id x) es (node_id y) \<longrightarrow>
                (\<exists>e \<in> set es. adj_is_staircase e))"
  then have "\<not> reach (graph (ensureBuilt db pf)) True (node_id x) (node_id y)"
    by (simp add: not_reach_iff)
  then show "fst (findPath db pf startCode goalCode True)
          = Some (ErrorResult ''No path found between the specified nodes'')"
    using a findPath_unreachable [of db startCode x goalCode y pf True] by (simp add: noPath_def)
qed

theorem avoidStairs_respected_witness:
  "fst (findPath scenario newPathFinder ''A'' ''C'' True)
     = Some (ErrorResult ''No path found between the specified nodes'')
   \<and> (\<exists>r. fst (findPath scenario newPathFinder ''A'' ''B'' True) = Some (PathResult r)
          \<and> map step_node_code (path r) = [''A'', ''B'']
          \<and> list_all (\<lambda>t. \<not> step_is_staircase t) (path r))"
proof -
  let ?g = "graph (ensureBuilt scenario newPathFinder)"
  have a: "findOne scenario ''A'' = Some (room 1 ''A'' 0)" by code_simp
  have c: "findOne scenario ''C'' = Some (room 3 ''C'' 1)" by code_simp
  have n: "node_id (room 1 ''A'' 0) = 1" "node_id (room 3 ''C'' 1) = 3" by (simp_all add: room_def)
  have closed: "\<forall>k \<in> {1, 2}. \<forall>e \<in> set (neighbors ?g k). allowed True e \<longrightarrow> to e \<in> {1, 2}"
    by code_simp
  have stairs: "\<forall>es. walk ?g 1 es 3 \<longrightarrow> (\<exists>e \<in> set es. adj_is_staircase e)"
  proof (intro allI impI, rule ccontr)
    fix es assume w: "walk ?g 1 es 3" and "\<not> (\<exists>e \<in> set es. adj_is_staircase e)"
    then have "list_all (allowed True) es" by (simp add: list_all_iff allowed_def)
    then have "(3 :: int) \<in> {1, 2}" using reach_closed [OF w _ _ closed] by simp
    then show False by simp
  qed
  have first: "fst (findPath scenario newPathFinder ''A'' ''C'' True)
     = Some (ErrorResult ''No path found between the specified nodes'')"
    using avoidStairs_respected [of scenario newPathFinder "''A''" "''C''"] a c n stairs
    by simp
  have "case fst (findPath scenario newPathFinder ''A'' ''B'' True) of
          Some (PathResult r) \<Rightarrow> map step_node_code (path r) = [''A'', ''B'']
        | _ \<Rightarrow> False"
    by code_simp
  then obtain r where r: "fst (findPath scenario newPathFinder ''A'' ''B'' True) = Some (PathResult r)"
      "map step_node_code (path r) = [''A'', ''B'']"
    by (auto split: option.splits outcome.splits)
  then have "list_all (\<lambda>t. \<not> step_is_staircase t) (path r)"
    using avoidStairs_respected [of scenario newPathFinder "''A''" "''B''"]
    by (simp add: list_all_iff)
  then show ?thesis using first r by auto
qed

subsection \<open>A node the snapshot does not know\<close>

text \<open>
  C10, as amended: the codes are resolved in the data layer, not in the node cache.
  When the engine is built, both codes resolve, to nodes with different identifiers,
  and one of the two identifiers is absent from the snapshot, \<open>findPath\<close> returns the
  error \<open>No path found between the specified nodes\<close>, for either value of
  \<open>avoidStairs\<close>.
\<close>

theorem absent_node_no_path:
  assumes "initialized pf"
    and "findOne db startCode = Some x" and "findOne db goalCode = Some y"
    and "node_id x \<noteq> node_id y"
    and "absent pf (node_id x) \<or> absent pf (node_id y)"
  shows "fst (findPath db pf startCode goalCode avoidStairs)
           = Some (ErrorResult ''No path found between the specified nodes'')"
proof -
  have "\<not> reach (graph pf) avoidStairs (node_id x) (node_id y)"
  proof
    assume "reach (graph pf) avoidStairs (node_id x) (node_id y)"
    then obtain es where w: "walk (graph pf) (node_id x) es (node_id y)"
      by (auto simp: reach_def)
    have "neighbors (graph pf) (node_id x) \<noteq> []" using w assms(4) by (rule walk_first)
    then have sx: "\<not> absent pf (node_id x)" by (auto simp: absent_def neighbors_def)
    obtain k e where "e \<in> set (neighbors (graph pf) k)" "to e = node_id y"
      using walk_last [OF w assms(4)] by blast
    then have "\<not> absent pf (node_id y)"
      using neighbors_all_tos [of e "graph pf" k] by (auto simp: absent_def)
    then show False using sx assms(5) by blast
  qed
  moreover have "ensureBuilt db pf = pf" using assms(1) by (simp add: ensureBuilt_def)
  ultimately show ?thesis
    using findPath_unreachable [of db startCode x goalCode y pf avoidStairs] assms(2,3)
    by (simp add: noPath_def)
qed

theorem absent_node_no_path_witness:
  "initialized stale \<and> findOne after_X ''A'' = Some (room 1 ''A'' 0)
   \<and> findOne after_X ''X'' = Some (room 2 ''X'' 0) \<and> absent stale 2
   \<and> fst (findPath after_X stale ''A'' ''X'' True)
       = Some (ErrorResult ''No path found between the specified nodes'')
   \<and> fst (findPath after_X stale ''X'' ''A'' False)
       = Some (ErrorResult ''No path found between the specified nodes'')"
proof -
  have i: "initialized stale" by (simp add: stale_def)
  have a: "findOne after_X ''A'' = Some (room 1 ''A'' 0)" by code_simp
  have x: "findOne after_X ''X'' = Some (room 2 ''X'' 0)" by code_simp
  have g: "graph stale = [(1, [])]" "nodesCache stale = [(1, room 1 ''A'' 0)]" by code_simp+
  have ab: "absent stale 2" by (simp add: absent_def g all_tos_def)
  have n: "node_id (room 1 ''A'' 0) = 1" "node_id (room 2 ''X'' 0) = 2" by (simp_all add: room_def)
  show ?thesis
    using absent_node_no_path [OF i a x, of True] absent_node_no_path [OF i x a, of False]
      i a x ab n by simp
qed

text \<open>
  C10 as it is stated does not hold: X resolves to a node that is absent from the stale
  snapshot and differs from the other code, but the other code names no node, and the
  call returns the error \<open>Goal node not found: ZZZ\<close>.
\<close>

theorem other_code_unresolved:
  "initialized stale \<and> findOne after_X ''X'' = Some (room 2 ''X'' 0) \<and> absent stale 2
   \<and> ''X'' \<noteq> ''ZZZ''
   \<and> fst (findPath after_X stale ''X'' ''ZZZ'' False)
       = Some (ErrorResult ''Goal node not found: ZZZ'')"
proof -
  have g: "graph stale = [(1, [])]" "nodesCache stale = [(1, room 1 ''A'' 0)]" by code_simp+
  have ab: "absent stale 2" by (simp add: absent_def g all_tos_def)
  have "fst (findPath after_X stale ''X'' ''ZZZ'' False)
       = Some (ErrorResult ''Goal node not found: ZZZ'')" by code_simp
  moreover have "findOne after_X ''X'' = Some (room 2 ''X'' 0)" by code_simp
  ultimately show ?thesis using ab by (simp add: stale_def)
qed

subsection \<open>push and pop keep the heap order\<close>

lemma parent_less: "0 < i \<Longrightarrow> parent i < i"
  by (simp add: parent_def)

lemma parent_eq_iff: "0 < i \<Longrightarrow> parent i = k \<longleftrightarrow> i = 2 * k + 1 \<or> i = 2 * k + 2"
  by (simp add: parent_def) arith

lemma swap_nth:
  "i < length h \<Longrightarrow> j < length h \<Longrightarrow>
     swap h i j ! n = (if n = j then h ! i else if n = i then h ! j else h ! n)"
  by (auto simp: swap_def nth_list_update)

lemma heap_ok_root:
  assumes "heap_ok h" "i < length h"
  shows "priority (h ! 0) \<le> priority (h ! i)"
  using assms(2)
proof (induction i rule: less_induct)
  case (less i)
  show ?case
  proof (cases "i = 0")
    case True
    then show ?thesis by simp
  next
    case False
    then have p: "parent i < i" by (simp add: parent_less)
    have "priority (h ! parent i) \<le> priority (h ! i)"
      using assms(1) False less.prems by (simp add: heap_ok_def)
    moreover have "priority (h ! 0) \<le> priority (h ! parent i)"
      using less.IH [OF p] p less.prems by simp
    ultimately show ?thesis by simp
  qed
qed

lemma heap_ok_bubbleUp:
  assumes "ok_but_up h k" "k < length h"
  shows "heap_ok (bubbleUp h k)"
  using assms
proof (induction h k rule: bubbleUp.induct)
  case (1 h index)
  let ?p = "(index - 1) div 2"
  have pp: "?p = parent index" by (simp add: parent_def)
  show ?case
  proof (cases "index > 0")
    case False
    then have "bubbleUp h index = h" by simp
    moreover have "heap_ok h" using "1.prems"(1) False by (auto simp: ok_but_up_def heap_ok_def)
    ultimately show ?thesis by simp
  next
    case pos: True
    then have plt: "?p < index" using parent_less [of index] pp by simp
    show ?thesis
    proof (cases "priority (h ! ?p) \<le> priority (h ! index)")
      case True
      then have "bubbleUp h index = h" using pos by (subst bubbleUp.simps) simp
      moreover have "heap_ok h"
        unfolding heap_ok_def
      proof
        fix i assume "i \<in> {1..<length h}"
        then show "priority (h ! parent i) \<le> priority (h ! i)"
          using "1.prems"(1) True pp by (cases "i = index") (auto simp: ok_but_up_def)
      qed
      ultimately show ?thesis by simp
    next
      case False
      then have lt: "priority (h ! index) < priority (h ! ?p)" by simp
      let ?h = "swap h ?p index"
      have eq: "bubbleUp h index = bubbleUp ?h ?p"
        using pos False by (subst bubbleUp.simps) (simp add: Let_def)
      have len: "?p < length h" "index < length h" using plt "1.prems"(2) by auto
      have nth: "\<And>n. ?h ! n = (if n = index then h ! ?p else if n = ?p then h ! index else h ! n)"
        using len by (simp add: swap_nth)
      have inv: "\<And>i. 1 \<le> i \<Longrightarrow> i < length h \<Longrightarrow> i \<noteq> index \<Longrightarrow>
          priority (h ! parent i) \<le> priority (h ! i)"
        using "1.prems"(1) by (auto simp: ok_but_up_def)
      have gp: "\<And>i. 1 \<le> i \<Longrightarrow> i < length h \<Longrightarrow> parent i = index \<Longrightarrow>
          priority (h ! parent index) \<le> priority (h ! i)"
        using "1.prems"(1) pos by (auto simp: ok_but_up_def)
      have "ok_but_up ?h ?p"
        unfolding ok_but_up_def
      proof (intro conjI ballI impI)
        fix i assume i: "i \<in> {1..<length ?h}" and ne: "i \<noteq> ?p"
        then have i1: "1 \<le> i" "i < length h" by auto
        then have pi: "parent i < i" by (simp add: parent_less)
        show "priority (?h ! parent i) \<le> priority (?h ! i)"
        proof (cases "i = index")
          case True
          then show ?thesis using lt nth pp plt by simp
        next
          case ni: False
          consider "parent i = ?p" | "parent i = index" | "parent i \<noteq> ?p" "parent i \<noteq> index"
            by blast
          then show ?thesis
          proof cases
            case 1
            have "priority (h ! ?p) \<le> priority (h ! i)" using inv [OF i1 ni] 1 by simp
            then show ?thesis using 1 lt nth ni ne plt by simp
          next
            case 2
            have "priority (h ! ?p) \<le> priority (h ! i)" using gp [OF i1 2] pp by simp
            then show ?thesis using 2 nth ni ne by simp
          next
            case 3
            then show ?thesis using inv [OF i1 ni] nth ni ne by simp
          qed
        qed
      next
        fix i assume i: "i \<in> {1..<length ?h}" and par: "parent i = ?p" and p0: "0 < ?p"
        then have i1: "1 \<le> i" "i < length h" by auto
        have ppp: "parent ?p < ?p" using p0 by (rule parent_less)
        have a: "priority (h ! parent ?p) \<le> priority (h ! ?p)"
          using inv [of ?p] p0 len plt by simp
        have ip: "i \<noteq> ?p" using par parent_less [of i] i1 by auto
        have npp: "?h ! parent ?p = h ! parent ?p" using nth ppp plt by simp
        show "priority (?h ! parent ?p) \<le> priority (?h ! i)"
        proof (cases "i = index")
          case True
          then show ?thesis using a nth npp by simp
        next
          case False
          then have "priority (h ! ?p) \<le> priority (h ! i)" using inv [OF i1 False] par by simp
          then show ?thesis using a nth npp False ip by simp
        qed
      qed
      then have "heap_ok (bubbleUp ?h ?p)"
        using "1.IH" [OF pos refl False] len by simp
      then show ?thesis using eq by simp
    qed
  qed
qed

lemma heap_ok_push:
  assumes "heap_ok h"
  shows "heap_ok (push p v h)"
proof -
  let ?h = "h @ [\<lparr>priority = p, val = v\<rparr>]"
  have "ok_but_up ?h (length h)"
    unfolding ok_but_up_def
  proof (intro conjI ballI impI)
    fix i assume "i \<in> {1..<length ?h}" "i \<noteq> length h"
    then have i: "1 \<le> i" "i < length h" by auto
    then have "parent i < length h" using parent_less [of i] by simp
    then show "priority (?h ! parent i) \<le> priority (?h ! i)"
      using assms i by (simp add: heap_ok_def nth_append)
  next
    fix i assume "i \<in> {1..<length ?h}" "parent i = length h"
    then have False using parent_less [of i] by auto
    then show "priority (?h ! parent (length h)) \<le> priority (?h ! i)" ..
  qed
  then show ?thesis by (simp add: push_def Let_def heap_ok_bubbleUp)
qed

lemma smallestOf_least:
  assumes "c = 2 * k + 1 \<or> c = 2 * k + 2" "c < length h"
  shows "priority (h ! smallestOf h k) \<le> priority (h ! c)"
  using assms by (auto simp: smallestOf_def Let_def)

lemma smallestOf_le_self: "priority (h ! smallestOf h k) \<le> priority (h ! k)"
  by (auto simp: smallestOf_def Let_def)

lemma heap_ok_bubbleDown:
  assumes "ok_but_down h k"
  shows "heap_ok (bubbleDown h k)"
  using assms
proof (induction h k rule: bubbleDown.induct)
  case (1 h index)
  let ?s = "smallestOf h index"
  have inv: "\<And>i. 1 \<le> i \<Longrightarrow> i < length h \<Longrightarrow> parent i \<noteq> index \<Longrightarrow>
      priority (h ! parent i) \<le> priority (h ! i)"
    using "1.prems" by (auto simp: ok_but_down_def)
  have gp: "\<And>i. 1 \<le> i \<Longrightarrow> i < length h \<Longrightarrow> parent i = index \<Longrightarrow> 0 < index \<Longrightarrow>
      priority (h ! parent index) \<le> priority (h ! i)"
    using "1.prems" by (auto simp: ok_but_down_def)
  show ?case
  proof (cases "?s = index")
    case True
    then have "bubbleDown h index = h" by (subst bubbleDown.simps) simp
    moreover have "heap_ok h"
      unfolding heap_ok_def
    proof
      fix i assume "i \<in> {1..<length h}"
      then have i: "1 \<le> i" "i < length h" by auto
      show "priority (h ! parent i) \<le> priority (h ! i)"
      proof (cases "parent i = index")
        case False
        then show ?thesis using inv i by simp
      next
        case p: True
        then have "i = 2 * index + 1 \<or> i = 2 * index + 2" using parent_eq_iff [of i index] i by simp
        then show ?thesis using smallestOf_least [of i index h] i True p by simp
      qed
    qed
    ultimately show ?thesis by simp
  next
    case False
    then have s: "?s = 2 * index + 1 \<or> ?s = 2 * index + 2" "?s < length h"
      using smallestOf_cases [of h index] by auto
    then have ps: "parent ?s = index" "index < ?s" "0 < ?s"
      using parent_eq_iff [of ?s index] by auto
    let ?h = "swap h ?s index"
    have eq: "bubbleDown h index = bubbleDown ?h ?s"
      using False by (subst bubbleDown.simps) (simp add: Let_def)
    have nth: "\<And>n. ?h ! n = (if n = index then h ! ?s else if n = ?s then h ! index else h ! n)"
      using s ps by (simp add: swap_nth)
    have "ok_but_down ?h ?s"
      unfolding ok_but_down_def
    proof (intro conjI ballI impI)
      fix i assume "i \<in> {1..<length ?h}" and ne: "parent i \<noteq> ?s"
      then have i: "1 \<le> i" "i < length h" by auto
      then have pi: "parent i < i" by (simp add: parent_less)
      show "priority (?h ! parent i) \<le> priority (?h ! i)"
      proof (cases "parent i = index")
        case True
        then have c: "i = 2 * index + 1 \<or> i = 2 * index + 2"
          using parent_eq_iff [of i index] i by simp
        have ii: "i \<noteq> index" using True pi by simp
        show ?thesis
        proof (cases "i = ?s")
          case True
          then show ?thesis using nth ps smallestOf_le_self [of h index] by simp
        next
          case nis: False
          then show ?thesis using nth True ii smallestOf_least [OF c i(2)] by simp
        qed
      next
        case npi: False
        have nsi: "i \<noteq> ?s" using npi ps by auto
        show ?thesis
        proof (cases "i = index")
          case True
          then have "0 < index" using i by simp
          then have "priority (h ! parent index) \<le> priority (h ! ?s)"
            using gp [of ?s] ps s by simp
          moreover have "parent index \<noteq> index" "parent index \<noteq> ?s"
            using pi True ps by auto
          ultimately show ?thesis using nth True by simp
        next
          case False
          then show ?thesis using inv [OF i npi] nth npi ne nsi by simp
        qed
      qed
    next
      fix i assume "i \<in> {1..<length ?h}" and par: "parent i = ?s"
      then have i: "1 \<le> i" "i < length h" by auto
      then have "?s < i" using parent_less [of i] par by simp
      then have ni: "i \<noteq> ?s" "i \<noteq> index" using ps by auto
      have "priority (h ! ?s) \<le> priority (h ! i)" using inv [OF i] par False by simp
      then show "priority (?h ! parent ?s) \<le> priority (?h ! i)"
        using nth ni ps by simp
    qed
    then have "heap_ok (bubbleDown ?h ?s)" using "1.IH" [OF refl False] by simp
    then show ?thesis using eq by simp
  qed
qed

lemma heap_ok_pop:
  assumes "heap_ok h" "pop h = (Some e, h')"
  shows "heap_ok h' \<and> (\<forall>x \<in> set h'. priority e \<le> priority x)"
proof -
  have ne: "h \<noteq> []" using assms(2) by (auto simp: pop_def)
  have e: "e = h ! 0"
    using assms(2) ne by (cases h) (auto simp: pop_def Let_def last_conv_nth split: if_splits)
  have "\<forall>x \<in> set h. priority e \<le> priority x"
    using heap_ok_root [OF assms(1)] e by (auto simp: in_set_conv_nth)
  moreover have "set h' \<subseteq> set h" using assms(2) by (auto simp: pop_set)
  moreover have "heap_ok h'"
  proof (cases "length h = 1")
    case True
    then have "h' = []" using assms(2) by (cases h) (auto simp: pop_def)
    then show ?thesis by (simp add: heap_ok_def)
  next
    case False
    let ?h1 = "(butlast h)[0 := last h]"
    have h': "h' = bubbleDown ?h1 0" using assms(2) False ne by (auto simp: pop_def Let_def)
    have "ok_but_down ?h1 0"
      unfolding ok_but_down_def
    proof (intro conjI ballI impI)
      fix i assume "i \<in> {1..<length ?h1}" and p: "parent i \<noteq> 0"
      then have i: "1 \<le> i" "i < length h - 1" by auto
      then have "parent i < i" by (simp add: parent_less)
      then have "?h1 ! i = h ! i" "?h1 ! parent i = h ! parent i"
        using i p by (simp_all add: nth_butlast)
      then show "priority (?h1 ! parent i) \<le> priority (?h1 ! i)"
        using assms(1) i by (simp add: heap_ok_def)
    qed simp
    then show ?thesis using h' by (simp add: heap_ok_bubbleDown)
  qed
  ultimately show ?thesis by blast
qed

lemma heap_ok_apply_op: "heap_ok h \<Longrightarrow> heap_ok (apply_op op h)"
proof (cases op)
  case (Push p v)
  assume "heap_ok h"
  then show ?thesis using Push by (simp add: heap_ok_push)
next
  case Pop
  assume h: "heap_ok h"
  show ?thesis
  proof (cases "h = []")
    case True
    then show ?thesis using Pop h by (simp add: pop_def)
  next
    case False
    then obtain e h' where "pop h = (Some e, h')" by (rule pop_nonempty)
    then show ?thesis using Pop heap_ok_pop [OF h] by simp
  qed
qed

lemma heap_ok_fold: "heap_ok h \<Longrightarrow> heap_ok (fold apply_op ops h)"
  by (induction ops arbitrary: h) (simp_all add: heap_ok_apply_op)

text \<open>
  C8: after any sequence of pushes and pops from the empty queue the backing array is in
  heap order; a pop on a queue that is not empty returns an entry, this entry's priority
  is at most the priority of every entry that remains, the remaining entries are the
  former ones without it, and they are in heap order again.
\<close>

theorem pop_gives_minimum:
  "heap_ok (run ops)
   \<and> (run ops \<noteq> [] \<longrightarrow> (\<exists>e h'. pop (run ops) = (Some e, h')))
   \<and> (\<forall>e h'. pop (run ops) = (Some e, h') \<longrightarrow>
         (\<forall>x \<in> set h'. priority e \<le> priority x)
         \<and> mset (run ops) = add_mset e (mset h') \<and> heap_ok h')"
proof -
  have ok: "heap_ok (run ops)"
    unfolding run_def by (rule heap_ok_fold) (simp add: heap_ok_def)
  moreover have "run ops \<noteq> [] \<longrightarrow> (\<exists>e h'. pop (run ops) = (Some e, h'))"
    by (auto elim: pop_nonempty)
  ultimately show ?thesis using heap_ok_pop [OF ok] set_pop by blast
qed

theorem pop_gives_minimum_witness:
  "heap_ok (run [Push 5 (1::int), Push 3 2, Push 4 3, Pop, Push 1 4, Push 2 5])
   \<and> pop (run [Push 5 (1::int), Push 3 2, Push 4 3, Pop, Push 1 4, Push 2 5])
       = (Some \<lparr>priority = 1, val = 4\<rparr>,
          [\<lparr>priority = 2, val = 5\<rparr>, \<lparr>priority = 5, val = 1\<rparr>, \<lparr>priority = 4, val = 3\<rparr>])
   \<and> list_all (\<lambda>x. 1 \<le> priority x)
        [\<lparr>priority = 2, val = 5 :: int\<rparr>, \<lparr>priority = 5, val = 1\<rparr>, \<lparr>priority = 4, val = 3\<rparr>]"
proof -
  let ?ops = "[Push 5 (1::int), Push 3 2, Push 4 3, Pop, Push 1 4, Push 2 5]"
  have p: "pop (run ?ops)
       = (Some \<lparr>priority = 1, val = 4\<rparr>,
          [\<lparr>priority = 2, val = 5\<rparr>, \<lparr>priority = 5, val = 1\<rparr>, \<lparr>priority = 4, val = 3\<rparr>])"
    by code_simp
  have "heap_ok (run ?ops)" using pop_gives_minimum [of ?ops] by (rule conjunct1)
  moreover have "\<forall>x \<in> set [\<lparr>priority = 2, val = 5 :: int\<rparr>, \<lparr>priority = 5, val = 1\<rparr>,
                        \<lparr>priority = 4, val = 3\<rparr>]. priority \<lparr>priority = 1, val = 4 :: int\<rparr> \<le> priority x"
    using pop_gives_minimum [of ?ops] p by blast
  ultimately show ?thesis using p by (simp add: list_all_iff)
qed

subsection \<open>The errors of findPath\<close>

text \<open>The two \<open>not found\<close> errors are returned exactly when a code does not resolve, with
  the code in the message, and the \<open>no path\<close> error exactly when the loop ends on an
  empty open set.\<close>

lemma reconstructPath_no_error: "reconstructPath c cf s g d \<noteq> Some (ErrorResult m)"
  by (auto simp: reconstructPath_def Let_def split: option.splits sum.splits)

lemma start_not_found_iff:
  "fst (findPath db pf startCode goalCode a)
      = Some (ErrorResult (''Start node not found: '' @ startCode))
   \<longleftrightarrow> findOne db startCode = None"
  by (auto simp: findPath_def Let_def reconstructPath_no_error
      split: option.splits loop_exit.splits)

lemma goal_not_found_iff:
  "fst (findPath db pf startCode goalCode a)
      = Some (ErrorResult (''Goal node not found: '' @ goalCode))
   \<longleftrightarrow> findOne db startCode \<noteq> None \<and> findOne db goalCode = None"
  by (auto simp: findPath_def Let_def reconstructPath_no_error
      split: option.splits loop_exit.splits)

lemma no_path_iff:
  assumes "findOne db startCode = Some x" "findOne db goalCode = Some y"
  shows "fst (findPath db pf startCode goalCode a) = Some noPath
     \<longleftrightarrow> astar_loop (ensureBuilt db pf) (node_id y) a
           (initialState (ensureBuilt db pf) (node_id x) (node_id y)) = OpenSetEmpty"
  using assms
  by (auto simp: findPath_def Let_def reconstructPath_no_error noPath_def
      split: option.splits loop_exit.splits)


subsection \<open>Where the answer and the code part\<close>

text \<open>
  C2 fails on \<open>detour\<close>.  U is visited with cost 3 and G is scored 13 through it; then
  W is visited and the loop, which does not look at \<open>visited\<close> before relaxing, lowers
  U to 2 and points it at W.  G keeps its score: the path returned is S, W, U, G, whose
  steps add up to 12, and \<open>total_distance\<close> is 13.
\<close>

theorem detour_total_distance:
  "(case fst (findPath detour newPathFinder ''S'' ''G'' False) of
      Some (PathResult r) \<Rightarrow>
        map step_node_code (path r) = [''S'', ''W'', ''U'', ''G'']
        \<and> map distance_from_prev (path r) = [0, 1, 1, 10]
        \<and> sum_list (map distance_from_prev (path r)) = 12
        \<and> total_distance r = 13
    | _ \<Rightarrow> False)"
  by code_simp

text \<open>
  C4 fails on the engine built before X was created, asked for a route from X to X:
  both codes resolve, the goal is popped at once, and \<open>reconstructPath\<close> reads
  \<open>node_id\<close> of the start node that the cache does not hold.  The call ends in a
  TypeError, which is neither of the two error objects.
\<close>

theorem stale_same_node_throws:
  "findOne after_X ''X'' = Some (room 2 ''X'' 0)
   \<and> initialized stale
   \<and> fst (findPath after_X stale ''X'' ''X'' False) = Some TypeError"
  by code_simp

end
